theory Spec2Isabelle
  imports Complex_Main "HOL-Library.Code_Target_Numeral"
begin

section \<open>Data model of ProductGrid.jsx\<close>

text \<open>
  The component keeps six \<^verbatim>\<open>useState\<close> cells and talks to the outside world through
  \<^verbatim>\<open>axios.get\<close>, \<^verbatim>\<open>console.error\<close> and the timer of \<^verbatim>\<open>lodash.debounce\<close>. The cells
  and the traces of these effects are the fields of one record, passed explicitly.
\<close>

type_synonym url = string

text \<open>A rejected \<^verbatim>\<open>axios.get\<close>: no response at all, or a response with an error status.\<close>

datatype error = TransportError | ServerError nat

text \<open>A summary record as the list endpoint returns it; \<^verbatim>\<open>homeworld\<close> may be missing.\<close>

record character =
  name :: string
  birth_year :: string
  gender :: string
  homeworld :: "url option"
  species :: "url list"
  films :: "url list"

text \<open>The object built by \<^verbatim>\<open>fetchCharacterDetails\<close>: \<^verbatim>\<open>{ ...char }\<close> and three more properties.\<close>

record details = character +
  homeworld_name :: "string option"
  species_name :: string
  film_titles :: "string list"

text \<open>The \<^verbatim>\<open>data\<close> of a planet, species or film response: the two properties that are read.\<close>

datatype resource = Resource (data_name: string) (data_title: string)

text \<open>The \<^verbatim>\<open>data\<close> of a list response.\<close>

record page_result =
  data_results :: "character list"
  data_total :: int

record state =
  characters :: "character list"
  search :: string
  currentPage :: int
  selectedChar :: "details option"
  totalPages :: int
  loading :: bool
  requests :: "url list"  \<comment> \<open>every URL handed to \<^verbatim>\<open>axios.get\<close>, oldest first\<close>
  console :: "(string \<times> error) list"  \<comment> \<open>the calls of \<^verbatim>\<open>console.error\<close>, oldest first\<close>
  pending :: "url list"  \<comment> \<open>list requests that have not been answered yet\<close>
  timer :: "(string \<times> nat) option"  \<comment> \<open>the armed debounce: its last argument and its due time\<close>
  now :: nat  \<comment> \<open>the clock, in milliseconds\<close>

definition itemsPerPage :: int where
  "itemsPerPage = 10"

text \<open>The state of the first render.\<close>

definition init :: state where
  "init = \<lparr>characters = [], search = [], currentPage = 1, selectedChar = None,
     totalPages = 1, loading = False, requests = [], console = [], pending = [],
     timer = None, now = 0\<rparr>"

section \<open>Numbers\<close>

text \<open>
  A JavaScript number is an IEEE double: a number \<^verbatim>\<open>m * 2^e\<close> with integers \<^verbatim>\<open>m\<close> and
  \<^verbatim>\<open>e\<close> that needs no more than 53 binary digits. A double is given as a pair \<^verbatim>\<open>(m, e)\<close>
  standing for \<^verbatim>\<open>m * 2^e\<close>. The component divides one integer by another and takes
  \<^verbatim>\<open>Math.ceil\<close> of the quotient; these two operations are modelled, for a divisor other
  than zero and without the limits of the exponent (the quotient of a non-zero integer by
  10 is far from both).
\<close>

text \<open>The number of binary digits of a natural number.\<close>

fun bits :: "nat \<Rightarrow> nat" where
  "bits n = (if n = 0 then 0 else Suc (bits (n div 2)))"

declare bits.simps [simp del]

text \<open>The integer nearest to \<^verbatim>\<open>n / d\<close>; of two nearest integers, the even one.\<close>

definition round_half_even :: "nat \<Rightarrow> nat \<Rightarrow> nat" where
  "round_half_even n d =
     (if 2 * (n mod d) < d then n div d
      else if d < 2 * (n mod d) then n div d + 1
      else if even (n div d) then n div d
      else n div d + 1)"

text \<open>
  The binary exponent of \<^verbatim>\<open>n / d\<close>: the \<^verbatim>\<open>k\<close> with \<^verbatim>\<open>2^k \<le> n / d < 2^(k+1)\<close>. It is the
  difference of the digit counts or one less; the test compares \<^verbatim>\<open>n / d\<close> with that
  power of two. (A difference of naturals stops at 0, so one of the two powers in the
  test is 1.)
\<close>

definition quotient_exponent :: "nat \<Rightarrow> nat \<Rightarrow> int" where
  "quotient_exponent n d =
     (if d * 2 ^ (bits n - bits d) \<le> n * 2 ^ (bits d - bits n)
      then int (bits n) - int (bits d)
      else int (bits n) - int (bits d) - 1)"

text \<open>
  The operator \<^verbatim>\<open>/\<close> on two integers: the exact quotient rounded to 53 binary digits, to
  nearest, ties to even.
\<close>

definition double_divide :: "int \<Rightarrow> int \<Rightarrow> int \<times> int" where
  "double_divide a b =
     (if a = 0 then (0, 0)
      else
        let e = quotient_exponent (nat \<bar>a\<bar>) (nat \<bar>b\<bar>) - 52;
            m = int (round_half_even (nat \<bar>a\<bar> * 2 ^ nat (- e)) (nat \<bar>b\<bar> * 2 ^ nat e))
        in (if (a < 0) = (b < 0) then m else - m, e))"

text \<open>\<^verbatim>\<open>Math.ceil\<close>: the least integer not below the double.\<close>

definition math_ceil :: "int \<times> int \<Rightarrow> int" where
  "math_ceil x =
     (case x of (m, e) \<Rightarrow> if 0 \<le> e then m * 2 ^ nat e else - ((- m) div 2 ^ nat (- e)))"

text \<open>
  The integers that are doubles: of an integer with more than 53 binary digits the digits
  beyond the first 53 are zero.
\<close>

definition double_holds :: "int \<Rightarrow> bool" where
  "double_holds t = (2 ^ (bits (nat \<bar>t\<bar>) - 53) dvd t \<and> bits (nat \<bar>t\<bar>) \<le> 1024)"

section \<open>The list request\<close>

text \<open>
  A number inside a template literal is written in decimal, with a sign when negative.
  This is the text JavaScript gives for an integer of magnitude up to \<^verbatim>\<open>2^53\<close>, as a page
  number is; larger numbers are printed with fewer digits or an exponent.
\<close>

fun digits :: "nat \<Rightarrow> string" where
  "digits n =
     (if n < 10 then [''0123456789'' ! n]
      else digits (n div 10) @ [''0123456789'' ! (n mod 10)])"

declare digits.simps [simp del]

definition number_to_string :: "int \<Rightarrow> string" where
  "number_to_string i = (if i < 0 then CHR ''-'' # digits (nat (- i)) else digits (nat i))"

text \<open>
  The template literal of \<^verbatim>\<open>fetchCharacters\<close>; an empty string is falsy, so the search
  part is left out for it. The query is pasted in as it is.
\<close>

definition characters_url :: "string \<Rightarrow> int \<Rightarrow> url" where
  "characters_url query page =
     ''https://star-wars-backend-hne5.onrender.com/characters?''
       @ (if query \<noteq> [] then ''search='' @ query @ ''&'' else [])
       @ ''page='' @ number_to_string page"

text \<open>
  \<^verbatim>\<open>fetchCharacters\<close> is an async function with one \<^verbatim>\<open>await\<close>. Up to the await it raises
  the loading flag and issues the request; other handlers may run before it resumes.
\<close>

definition fetchCharacters_start :: "string \<Rightarrow> int \<Rightarrow> state \<Rightarrow> state" where
  "fetchCharacters_start query page s =
     s\<lparr>loading := True,
       requests := requests s @ [characters_url query page],
       pending := pending s @ [characters_url query page]\<rparr>"

text \<open>
  The rest of \<^verbatim>\<open>fetchCharacters\<close>, resumed with the outcome of the request: the \<^verbatim>\<open>try\<close>
  branch for a response, the \<^verbatim>\<open>catch\<close> branch for a rejection, then \<^verbatim>\<open>finally\<close>.
  \<^verbatim>\<open>data_total\<close> is the value of the number \<^verbatim>\<open>res.data.total\<close>, an integer that is a
  double; the quotient is the quotient of doubles.
\<close>

definition fetchCharacters_finish :: "error + page_result \<Rightarrow> state \<Rightarrow> state" where
  "fetchCharacters_finish res s =
     (case res of
        Inr d \<Rightarrow>
          s\<lparr>characters := data_results d,
            totalPages := math_ceil (double_divide (data_total d) itemsPerPage)\<rparr>
      | Inl e \<Rightarrow>
          s\<lparr>console := console s @ [(''Error fetching characters:'', e)],
            characters := [],
            totalPages := 1\<rparr>)
     \<lparr>loading := False\<rparr>"

section \<open>The detail request\<close>

text \<open>
  \<^verbatim>\<open>Promise.all\<close> over promises with the outcomes \<^verbatim>\<open>ps\<close>, which settle in the order
  \<^verbatim>\<open>ord\<close> (a list of positions). A fulfilled promise stores its value at its own
  position; the join is fulfilled with the array of values once every position is filled,
  and rejected by the first rejection to arrive. It stays unsettled (\<^verbatim>\<open>None\<close>) while a
  position is missing.
\<close>

fun settle_all :: "(error + 'a) list \<Rightarrow> 'a option list \<Rightarrow> nat list \<Rightarrow> (error + 'a list) option" where
  "settle_all ps vals [] = None"
| "settle_all ps vals (i # ord) =
     (if length ps \<le> i then settle_all ps vals ord
      else case ps ! i of
        Inl e \<Rightarrow> Some (Inl e)
      | Inr v \<Rightarrow>
          (case those (vals[i := Some v]) of
             Some vs \<Rightarrow> Some (Inr vs)
           | None \<Rightarrow> settle_all ps (vals[i := Some v]) ord))"

definition promise_all :: "(error + 'a) list \<Rightarrow> nat list \<Rightarrow> (error + 'a list) option" where
  "promise_all ps ord =
     (if ps = [] then Some (Inr []) else settle_all ps (replicate (length ps) None) ord)"

text \<open>
  The three \<^verbatim>\<open>if\<close> blocks of the \<^verbatim>\<open>try\<close> body of \<^verbatim>\<open>fetchCharacterDetails\<close>. Each gives the
  URLs it requests and the value it would store in \<^verbatim>\<open>details\<close>, or the error it raises.
  The network is a function \<^verbatim>\<open>net\<close> from a URL to the outcome of \<^verbatim>\<open>axios.get\<close>. An empty
  string and a missing property are falsy; an array is truthy, so the second and third
  tests are the length tests.
\<close>

definition homeworld_step :: "(url \<Rightarrow> error + resource) \<Rightarrow> character \<Rightarrow> url list \<times> (error + string option)" where
  "homeworld_step net char =
     (case homeworld char of
        None \<Rightarrow> ([], Inr None)
      | Some u \<Rightarrow>
          if u = [] then ([], Inr None)
          else ([u], case net u of Inl e \<Rightarrow> Inl e | Inr hw \<Rightarrow> Inr (Some (data_name hw))))"

definition species_step :: "(url \<Rightarrow> error + resource) \<Rightarrow> character \<Rightarrow> url list \<times> (error + string)" where
  "species_step net char =
     (case species char of
        u # _ \<Rightarrow> ([u], case net u of Inl e \<Rightarrow> Inl e | Inr sp \<Rightarrow> Inr (data_name sp))
      | [] \<Rightarrow> ([], Inr ''Unknown''))"

definition films_step ::
  "(url \<Rightarrow> error + resource) \<Rightarrow> nat list \<Rightarrow> character \<Rightarrow> url list \<times> (error + string list) option" where
  "films_step net ord char =
     (if films char \<noteq> [] then
        (films char,
         case promise_all (map net (films char)) ord of
           None \<Rightarrow> None
         | Some (Inl e) \<Rightarrow> Some (Inl e)
         | Some (Inr fs) \<Rightarrow> Some (Inr (map data_title fs)))
      else ([], Some (Inr [])))"

text \<open>
  The \<^verbatim>\<open>try\<close> body: the blocks in sequence, the first error ending it. The result is the
  list of URLs requested and the outcome: the finished \<^verbatim>\<open>details\<close> object, an error, or
  \<^verbatim>\<open>None\<close> when the join of the film requests never settles.
\<close>

definition fetchCharacterDetails_try ::
  "(url \<Rightarrow> error + resource) \<Rightarrow> nat list \<Rightarrow> character \<Rightarrow> url list \<times> (error + details) option" where
  "fetchCharacterDetails_try net ord char =
     (case homeworld_step net char of
        (r1, Inl e) \<Rightarrow> (r1, Some (Inl e))
      | (r1, Inr hn) \<Rightarrow>
          (case species_step net char of
             (r2, Inl e) \<Rightarrow> (r1 @ r2, Some (Inl e))
           | (r2, Inr sn) \<Rightarrow>
               (case films_step net ord char of
                  (r3, None) \<Rightarrow> (r1 @ r2 @ r3, None)
                | (r3, Some (Inl e)) \<Rightarrow> (r1 @ r2 @ r3, Some (Inl e))
                | (r3, Some (Inr ft)) \<Rightarrow>
                    (r1 @ r2 @ r3,
                     Some (Inr \<lparr>name = name char, birth_year = birth_year char,
                       gender = gender char, homeworld = homeworld char,
                       species = species char, films = films char,
                       homeworld_name = hn, species_name = sn, film_titles = ft\<rparr>)))))"

text \<open>
  \<^verbatim>\<open>fetchCharacterDetails\<close>: \<^verbatim>\<open>setSelectedChar(details)\<close> at the end of the \<^verbatim>\<open>try\<close> body,
  \<^verbatim>\<open>console.error\<close> in the \<^verbatim>\<open>catch\<close> branch.
\<close>

definition fetchCharacterDetails ::
  "(url \<Rightarrow> error + resource) \<Rightarrow> nat list \<Rightarrow> character \<Rightarrow> state \<Rightarrow> state" where
  "fetchCharacterDetails net ord char s =
     (case fetchCharacterDetails_try net ord char of
        (rs, Some (Inr d)) \<Rightarrow> s\<lparr>selectedChar := Some d, requests := requests s @ rs\<rparr>
      | (rs, Some (Inl e)) \<Rightarrow>
          s\<lparr>console := console s @ [(''Error fetching character details:'', e)],
            requests := requests s @ rs\<rparr>
      | (rs, None) \<Rightarrow> s\<lparr>requests := requests s @ rs\<rparr>)"

section \<open>Effects, handlers and time\<close>

text \<open>
  \<^verbatim>\<open>debouncedSearch\<close> is \<^verbatim>\<open>debounce(f, 500)\<close> of lodash with its default options (trailing
  edge only): a call stores its argument and restarts the wait of 500 ms; when the wait
  ends without another call, \<^verbatim>\<open>f\<close> runs once with the stored argument.
\<close>

definition debouncedSearch :: "string \<Rightarrow> state \<Rightarrow> state" where
  "debouncedSearch query s = s\<lparr>timer := Some (query, now s + 500)\<rparr>"

text \<open>The function handed to \<^verbatim>\<open>debounce\<close>: \<^verbatim>\<open>setCurrentPage(1); fetchCharacters(query, 1)\<close>.\<close>

definition debouncedSearch_fire :: "string \<Rightarrow> state \<Rightarrow> state" where
  "debouncedSearch_fire query s = fetchCharacters_start query 1 (s\<lparr>currentPage := 1\<rparr>)"

text \<open>The two \<^verbatim>\<open>useEffect\<close> blocks, with the dependencies \<^verbatim>\<open>[currentPage]\<close> and \<^verbatim>\<open>[search, debouncedSearch]\<close>.\<close>

definition effect_currentPage :: "state \<Rightarrow> state" where
  "effect_currentPage s = fetchCharacters_start [] (currentPage s) s"

definition effect_search :: "state \<Rightarrow> state" where
  "effect_search s = debouncedSearch (search s) s"

text \<open>
  After a handler has run, the component is rendered again and the effects whose
  dependencies differ from the previous render run, in the order of the source.
  \<^verbatim>\<open>debouncedSearch\<close> comes from \<^verbatim>\<open>useCallback\<close> with no dependencies and never changes.
  State updates made in one handler are applied together, before the effects.
\<close>

definition commit :: "state \<Rightarrow> state \<Rightarrow> state" where
  "commit old new =
     (let s1 = (if currentPage new \<noteq> currentPage old then effect_currentPage new else new)
      in if search s1 \<noteq> search old then effect_search s1 else s1)"

text \<open>After the first render both effects run.\<close>

definition mount :: state where
  "mount = effect_search (effect_currentPage init)"

text \<open>
  What can happen to the mounted component: the handlers of the markup, and the answer to
  the \<^verbatim>\<open>k\<close>-th list request still in flight (answers may come in any order). A card click
  carries the network and the settling order that its requests will meet.
\<close>

datatype event =
    SearchInput string
  | SearchClear
  | PrevPage
  | NextPage
  | PageButton nat
  | CardClick nat "url \<Rightarrow> error + resource" "nat list"
  | ModalClose
  | ListResponse nat "error + page_result"

text \<open>The pagination bar is rendered only under \<^verbatim>\<open>!loading && characters.length > 0\<close>.\<close>

definition pagination_shown :: "state \<Rightarrow> bool" where
  "pagination_shown s = (\<not> loading s \<and> characters s \<noteq> [])"

text \<open>
  The handlers. A control that is not rendered cannot be clicked: the clear button needs
  a non-empty \<^verbatim>\<open>search\<close>, the cards need \<^verbatim>\<open>!loading\<close>, the page buttons are those of
  \<^verbatim>\<open>Array.from({ length: totalPages })\<close>, the close button belongs to the modal.
\<close>

fun handler :: "event \<Rightarrow> state \<Rightarrow> state" where
  "handler (SearchInput text) s = s\<lparr>search := text\<rparr>"
| "handler SearchClear s = (if search s \<noteq> [] then s\<lparr>search := []\<rparr> else s)"
| "handler PrevPage s =
     (if pagination_shown s then s\<lparr>currentPage := max (currentPage s - 1) 1\<rparr> else s)"
| "handler NextPage s =
     (if pagination_shown s then s\<lparr>currentPage := min (currentPage s + 1) (totalPages s)\<rparr>
      else s)"
| "handler (PageButton i) s =
     (if pagination_shown s \<and> int i < totalPages s then s\<lparr>currentPage := int i + 1\<rparr> else s)"
| "handler (CardClick k net ord) s =
     (if \<not> loading s \<and> k < length (characters s)
      then fetchCharacterDetails net ord (characters s ! k) s else s)"
| "handler ModalClose s = (if selectedChar s \<noteq> None then s\<lparr>selectedChar := None\<rparr> else s)"
| "handler (ListResponse k res) s =
     (if k < length (pending s)
      then fetchCharacters_finish res (s\<lparr>pending := take k (pending s) @ drop (Suc k) (pending s)\<rparr>)
      else s)"

definition step :: "event \<Rightarrow> state \<Rightarrow> state" where
  "step e s = commit s (handler e s)"

text \<open>
  \<^verbatim>\<open>d\<close> milliseconds pass. If the debounce falls due in that time, its function runs and
  the component is rendered again.
\<close>

definition elapse :: "nat \<Rightarrow> state \<Rightarrow> state" where
  "elapse d s =
     (case timer s of
        None \<Rightarrow> s\<lparr>now := now s + d\<rparr>
      | Some (query, due) \<Rightarrow>
          if due \<le> now s + d
          then (commit (s\<lparr>timer := None\<rparr>) (debouncedSearch_fire query (s\<lparr>timer := None\<rparr>)))
                 \<lparr>now := now s + d\<rparr>
          else s\<lparr>now := now s + d\<rparr>)"

text \<open>A run: each event comes with the time that passed since the previous one.\<close>

fun run :: "(nat \<times> event) list \<Rightarrow> state \<Rightarrow> state" where
  "run [] s = s"
| "run ((d, e) # es) s = run es (step e (elapse d s))"

text \<open>The page invariant of the specification.\<close>

definition page_in_range :: "state \<Rightarrow> bool" where
  "page_in_range s = (1 \<le> currentPage s \<and> currentPage s \<le> totalPages s)"

fun is_response :: "event \<Rightarrow> bool" where
  "is_response (ListResponse k res) = True"
| "is_response e = False"

fun is_pagination :: "event \<Rightarrow> bool" where
  "is_pagination PrevPage = True"
| "is_pagination NextPage = True"
| "is_pagination (PageButton i) = True"
| "is_pagination e = False"

text \<open>
  A burst of typing: search terms, each with the time since the previous event. A term is
  an update when it differs from the term before it (React does not render again for an
  equal value). The armed debounce, if any, is not due before the first keystroke.
\<close>

definition typing :: "(nat \<times> string) list \<Rightarrow> (nat \<times> event) list" where
  "typing us = map (\<lambda>(d, q). (d, SearchInput q)) us"

fun changes :: "string \<Rightarrow> string list \<Rightarrow> bool" where
  "changes p [] = True"
| "changes p (q # qs) = (q \<noteq> p \<and> changes q qs)"

definition not_due :: "nat \<Rightarrow> state \<Rightarrow> bool" where
  "not_due d s = (case timer s of None \<Rightarrow> True | Some (q, due) \<Rightarrow> now s + d < due)"

section \<open>Reading a URL\<close>




section \<open>Example inputs\<close>

definition luke :: character where
  "luke = \<lparr>name = ''Luke Skywalker'', birth_year = ''19BBY'', gender = ''male'',
     homeworld = Some ''/planets/1'', species = [], films = [''/films/1'', ''/films/2'']\<rparr>"

definition luke_three_films :: character where
  "luke_three_films = luke\<lparr>films := [''/films/1'', ''/films/7'', ''/films/2'']\<rparr>"

definition chewbacca :: character where
  "chewbacca = \<lparr>name = ''Chewbacca'', birth_year = ''200BBY'', gender = ''male'',
     homeworld = Some ''/planets/14'', species = [''/species/3'', ''/species/99''],
     films = [''/films/1'']\<rparr>"

text \<open>A network that knows five resources and answers 404 for every other URL.\<close>

definition swapi :: "url \<Rightarrow> error + resource" where
  "swapi u =
     (if u = ''/planets/1'' then Inr (Resource ''Tatooine'' [])
      else if u = ''/planets/14'' then Inr (Resource ''Kashyyyk'' [])
      else if u = ''/species/3'' then Inr (Resource ''Wookie'' [])
      else if u = ''/films/1'' then Inr (Resource [] ''A New Hope'')
      else if u = ''/films/2'' then Inr (Resource [] ''The Empire Strikes Back'')
      else Inl (ServerError 404))"

text \<open>A list response with one record and the given total.\<close>

definition ok :: "int \<Rightarrow> error + page_result" where
  "ok n = Inr \<lparr>data_results = [luke], data_total = n\<rparr>"

text \<open>
  Three runs from the mounted component. In each the first two answers are for the request
  of the mount and for the request of the debounce armed at the mount.
\<close>

definition browse_to_page_3 :: "(nat \<times> event) list" where
  "browse_to_page_3 =
     [(100, ListResponse 0 (ok 82)), (1000, ListResponse 0 (ok 82)), (100, PageButton 2),
      (100, ListResponse 0 (ok 82))]"

definition page_2_of_search :: "(nat \<times> event) list" where
  "page_2_of_search =
     [(100, ListResponse 0 (ok 82)), (1000, ListResponse 0 (ok 82)),
      (1000, SearchInput ''Luke''), (600, ListResponse 0 (ok 12)), (2000, PageButton 1)]"

definition search_without_match :: "(nat \<times> event) list" where
  "search_without_match =
     [(100, ListResponse 0 (ok 82)), (1000, ListResponse 0 (ok 82)),
      (1000, SearchInput ''zzz''),
      (600, ListResponse 0 (Inr \<lparr>data_results = [], data_total = 0\<rparr>))]"

text \<open>
  A search answered late: the answer for \<^verbatim>\<open>Luke\<close> (one record) arrives after the user has
  moved on to page 5 of the full list.
\<close>

definition page_2_shown :: "(nat \<times> event) list" where
  "page_2_shown =
     [(100, ListResponse 0 (ok 82)), (100, NextPage), (100, ListResponse 0 (ok 82))]"

definition late_search_answer :: "(nat \<times> event) list" where
  "late_search_answer =
     [(600, SearchInput ''Luke''), (600, ListResponse 0 (ok 82)), (100, PageButton 4),
      (100, ListResponse 2 (ok 82)), (100, ListResponse 1 (ok 1))]"

section \<open>Properties of numbers\<close>

lemma bits_upper: "n < 2 ^ bits n"
proof (induction n rule: bits.induct)
  case (1 n)
  show ?case
  proof (cases "n = 0")
    case True
    then show ?thesis by (subst bits.simps) simp
  next
    case False
    with 1 have "n div 2 < 2 ^ bits (n div 2)" by simp
    then have "n < 2 * 2 ^ bits (n div 2)" by linarith
    with False show ?thesis by (subst bits.simps) simp
  qed
qed

lemma bits_lower: "0 < n \<Longrightarrow> 2 ^ (bits n - 1) \<le> n"
proof (induction n rule: bits.induct)
  case (1 n)
  show ?case
  proof (cases "n div 2 = 0")
    case True
    with 1 have "n = 1" by linarith
    then show ?thesis by (simp add: bits.simps)
  next
    case False
    with 1 have ih: "2 ^ (bits (n div 2) - 1) \<le> n div 2" by simp
    from False have pos: "0 < bits (n div 2)" by (subst bits.simps) simp
    from 1 have "bits n = Suc (bits (n div 2))" by (subst bits.simps) simp
    then have "(2::nat) ^ (bits n - 1) = 2 * 2 ^ (bits (n div 2) - 1)"
      using pos by (cases "bits (n div 2)") simp_all
    with ih show ?thesis by linarith
  qed
qed

lemma bits_positive: "0 < n \<Longrightarrow> 0 < bits n"
  by (subst bits.simps) simp

lemma bits_eq:
  assumes "2 ^ b \<le> n" and "n < 2 ^ Suc b"
  shows "bits n = Suc b"
proof -
  from assms have n: "0 < n" by (cases "n = 0") auto
  have "(2::nat) ^ b < 2 ^ bits n" using assms(1) bits_upper [of n] by linarith
  then have "b < bits n" by simp
  moreover have "(2::nat) ^ (bits n - 1) < 2 ^ Suc b" using bits_lower [OF n] assms(2) by linarith
  then have "bits n - 1 < Suc b" by (simp only: power_strict_increasing_iff [of 2] one_less_numeral_iff semiring_norm)
  ultimately show ?thesis by linarith
qed

lemma bits_bounds:
  assumes "0 < n"
  shows "2 ^ bits n \<le> 2 * n" and "n < 2 ^ bits n"
proof -
  from assms have "0 < bits n" by (rule bits_positive)
  then have "(2::nat) ^ bits n = 2 * 2 ^ (bits n - 1)"
    by (cases "bits n") simp_all
  with bits_lower [OF assms] show "2 ^ bits n \<le> 2 * n" by simp
  show "n < 2 ^ bits n" by (rule bits_upper)
qed

text \<open>
  \<^verbatim>\<open>quotient_exponent n d\<close> is the binary exponent of \<^verbatim>\<open>n / d\<close>: with \<^verbatim>\<open>k\<close> for it,
  \<^verbatim>\<open>2^k \<le> n / d < 2^(k+1)\<close>, written without fractions.
\<close>

lemma quotient_exponent_correct:
  assumes "0 < n" and "0 < d"
  shows "d * 2 ^ nat (quotient_exponent n d) \<le> n * 2 ^ nat (- quotient_exponent n d)"
    and "n * 2 ^ nat (- quotient_exponent n d) < 2 * (d * 2 ^ nat (quotient_exponent n d))"
proof -
  note n = bits_bounds [OF assms(1)]
  note d = bits_bounds [OF assms(2)]
  have "d * 2 ^ nat (quotient_exponent n d) \<le> n * 2 ^ nat (- quotient_exponent n d)
    \<and> n * 2 ^ nat (- quotient_exponent n d) < 2 * (d * 2 ^ nat (quotient_exponent n d))"
  proof (cases "bits d \<le> bits n")
    case True
    define j where "j = bits n - bits d"
    have bn: "bits n = bits d + j" using True by (simp add: j_def)
    have z: "bits d - bits n = 0" using True by simp
    from n d have up: "n < 2 * (d * 2 ^ j)" and lo: "d * 2 ^ j \<le> 2 * n"
    proof -
      have "n < 2 ^ bits d * 2 ^ j" using n(2) by (simp add: bn power_add)
      also have "\<dots> \<le> (2 * d) * 2 ^ j" using d(1) by (rule mult_right_mono) simp
      finally show "n < 2 * (d * 2 ^ j)" by simp
      have "d * 2 ^ j \<le> 2 ^ bits d * 2 ^ j" using d(2) by simp
      also have "\<dots> = 2 ^ bits n" by (simp add: bn power_add)
      also have "\<dots> \<le> 2 * n" by (rule n(1))
      finally show "d * 2 ^ j \<le> 2 * n" .
    qed
    show ?thesis
    proof (cases "d * 2 ^ j \<le> n")
      case t: True
      then have "quotient_exponent n d = int j"
        using True by (simp add: quotient_exponent_def j_def z)
      with t up show ?thesis by simp
    next
      case f: False
      then have q: "quotient_exponent n d = int j - 1"
        using True by (simp add: quotient_exponent_def j_def z)
      show ?thesis
      proof (cases j)
        case 0
        with q f lo show ?thesis by simp
      next
        case (Suc i)
        with q have "nat (quotient_exponent n d) = i" "nat (- quotient_exponent n d) = 0"
          by simp_all
        with f lo Suc show ?thesis by simp
      qed
    qed
  next
    case False
    define j where "j = bits d - bits n"
    have bd: "bits d = bits n + j" using False by (simp add: j_def)
    have z: "bits n - bits d = 0" using False by simp
    have up: "n * 2 ^ j < 2 * d" and lo: "d \<le> 2 * (n * 2 ^ j)"
    proof -
      have "n * 2 ^ j < 2 ^ bits n * 2 ^ j" using n(2) by simp
      also have "\<dots> = 2 ^ bits d" by (simp add: bd power_add)
      also have "\<dots> \<le> 2 * d" by (rule d(1))
      finally show "n * 2 ^ j < 2 * d" .
      have "d < 2 ^ bits n * 2 ^ j" using d(2) by (simp add: bd power_add)
      also have "\<dots> \<le> (2 * n) * 2 ^ j" using n(1) by (rule mult_right_mono) simp
      finally show "d \<le> 2 * (n * 2 ^ j)" by simp
    qed
    show ?thesis
    proof (cases "d \<le> n * 2 ^ j")
      case t: True
      then have "quotient_exponent n d = - int j"
        using False by (simp add: quotient_exponent_def j_def z)
      with t up show ?thesis by simp
    next
      case f: False
      then have "quotient_exponent n d = - int j - 1"
        using False by (simp add: quotient_exponent_def j_def z)
      then have "nat (quotient_exponent n d) = 0" "nat (- quotient_exponent n d) = Suc j"
        by simp_all
      with f lo show ?thesis by simp
    qed
  qed
  then show "d * 2 ^ nat (quotient_exponent n d) \<le> n * 2 ^ nat (- quotient_exponent n d)"
    and "n * 2 ^ nat (- quotient_exponent n d) < 2 * (d * 2 ^ nat (quotient_exponent n d))"
    by simp_all
qed

lemma quotient_exponent_sound:
  assumes "0 < n" and "0 < d" and "0 \<le> quotient_exponent n d"
  shows "d * 2 ^ nat (quotient_exponent n d) \<le> n"
proof (cases "d * 2 ^ (bits n - bits d) \<le> n * 2 ^ (bits d - bits n)")
  case True
  then have q: "quotient_exponent n d = int (bits n) - int (bits d)"
    by (simp add: quotient_exponent_def)
  with assms(3) have "bits d \<le> bits n" by simp
  with True q show ?thesis by (simp add: nat_diff_distrib)
next
  case False
  then have q: "quotient_exponent n d = int (bits n) - int (bits d) - 1"
    by (simp add: quotient_exponent_def)
  with assms(3) have le: "Suc (bits d) \<le> bits n" by simp
  from q le have e: "nat (quotient_exponent n d) = bits n - bits d - 1" by simp
  have "d * 2 ^ (bits n - bits d - 1) \<le> 2 ^ bits d * 2 ^ (bits n - bits d - 1)"
    using bits_upper [of d] by simp
  also have "\<dots> = 2 ^ (bits n - 1)"
    using le by (simp add: power_add [symmetric])
  also have "\<dots> \<le> n" using assms(1) by (rule bits_lower)
  finally show ?thesis by (simp add: e)
qed

lemma quotient_exponent_less:
  assumes "0 < n" and "0 < d" and "n < d * 2 ^ j"
  shows "quotient_exponent n d < int j"
proof (rule ccontr)
  assume "\<not> quotient_exponent n d < int j"
  then have ge: "int j \<le> quotient_exponent n d" by simp
  then have "0 \<le> quotient_exponent n d" by simp
  with assms have "d * 2 ^ nat (quotient_exponent n d) \<le> n"
    by (intro quotient_exponent_sound)
  moreover from ge have "j \<le> nat (quotient_exponent n d)" by simp
  then have "(2::nat) ^ j \<le> 2 ^ nat (quotient_exponent n d)" by simp
  then have "d * 2 ^ j \<le> d * 2 ^ nat (quotient_exponent n d)" by simp
  ultimately show False using assms(3) by linarith
qed

lemma round_half_even_near:
  assumes "0 < d"
  shows "2 * (round_half_even n d * d) \<le> 2 * n + d" and "2 * n \<le> 2 * (round_half_even n d * d) + d"
proof -
  have n: "n = n div d * d + n mod d" by simp
  have r: "n mod d < d" using assms by simp
  define q where "q = n div d"
  define r where "r = n mod d"
  have *: "n = q * d + r" "r < d" using n r by (simp_all add: q_def r_def)
  have "2 * (round_half_even n d * d) \<le> 2 * n + d \<and> 2 * n \<le> 2 * (round_half_even n d * d) + d"
    unfolding round_half_even_def q_def [symmetric] r_def [symmetric]
    using * by (auto simp: algebra_simps)
  then show "2 * (round_half_even n d * d) \<le> 2 * n + d"
    and "2 * n \<le> 2 * (round_half_even n d * d) + d" by simp_all
qed

lemma round_half_even_exact: "0 < d \<Longrightarrow> round_half_even (q * d) d = q"
  by (simp add: round_half_even_def)

lemma ceiling_div:
  fixes m k P :: int
  assumes "0 < P" and "k * P < m" and "m \<le> (k + 1) * P"
  shows "- ((- m) div P) = k + 1"
proof -
  have "(- m) div P = - (k + 1)"
  proof (rule int_div_pos_eq)
    show "- m = P * - (k + 1) + ((k + 1) * P - m)" by (simp add: algebra_simps)
    show "0 \<le> (k + 1) * P - m" using assms by simp
    show "(k + 1) * P - m < P" using assms by (simp add: algebra_simps)
  qed
  then show ?thesis by simp
qed


lemma double_divide_tenth:
  assumes "0 < t" and "quotient_exponent (nat t) 10 - 52 < 0"
  shows "double_divide t 10 =
    (int (round_half_even (nat t * 2 ^ nat (52 - quotient_exponent (nat t) 10)) 10),
     quotient_exponent (nat t) 10 - 52)"
proof -
  from assms(2) have "nat (quotient_exponent (nat t) 10 - 52) = 0" by simp
  moreover have "- (quotient_exponent (nat t) 10 - 52) = 52 - quotient_exponent (nat t) 10" by simp
  moreover from assms(1) have "nat \<bar>t\<bar> = nat t" "t \<noteq> 0" "\<not> t < 0" by simp_all
  ultimately show ?thesis
    by (simp add: double_divide_def Let_def)
qed

lemma ceil_double_tenth_core:
  fixes t :: int
  assumes t: "0 < t" and e: "quotient_exponent (nat t) 10 - 52 < 0"
    and P: "8 \<le> (2::int) ^ nat (52 - quotient_exponent (nat t) 10)
       \<or> 4 \<le> (2::int) ^ nat (52 - quotient_exponent (nat t) 10) \<and> even t"
  shows "math_ceil (double_divide t 10) = (t + 9) div 10"
proof -
  define s where "s = nat (52 - quotient_exponent (nat t) 10)"
  define P :: int where "P = 2 ^ s"
  define m where "m = int (round_half_even (nat t * 2 ^ s) 10)"
  define k where "k = t div 10"
  define r where "r = t mod 10"
  have dd: "double_divide t 10 = (m, quotient_exponent (nat t) 10 - 52)"
    using double_divide_tenth [OF t e] by (simp add: m_def s_def)
  have "nat (- (quotient_exponent (nat t) 10 - 52)) = s" by (simp add: s_def)
  with e dd have mc: "math_ceil (double_divide t 10) = - ((- m) div P)"
    by (simp add: math_ceil_def P_def)
  have Ppos: "0 < P" by (simp add: P_def)
  have tkr: "t = 10 * k + r" "0 \<le> r" "r < 10" by (simp_all add: k_def r_def)
  have N: "int (nat t * 2 ^ s) = t * P" using t by (simp add: P_def)
  show ?thesis
  proof (cases "r = 0")
    case True
    with tkr t have k: "0 \<le> k" "t = 10 * k" by simp_all
    then have "nat t * 2 ^ s = (nat k * 2 ^ s) * 10"
      by (simp add: nat_mult_distrib)
    then have "round_half_even (nat t * 2 ^ s) 10 = round_half_even ((nat k * 2 ^ s) * 10) 10"
      by (simp only:)
    also have "\<dots> = nat k * 2 ^ s"
      by (rule round_half_even_exact) simp
    finally have "round_half_even (nat t * 2 ^ s) 10 = nat k * 2 ^ s" .
    then have "m = k * P" using k by (simp add: m_def P_def)
    moreover have "(- (k * P)) div P = - k"
      using Ppos by (metis minus_mult_left nonzero_mult_div_cancel_right less_irrefl)
    ultimately have "math_ceil (double_divide t 10) = k" using mc by simp
    moreover from k have "(t + 9) div 10 = k" by simp
    ultimately show ?thesis by simp
  next
    case False
    have near: "2 * (m * 10) \<le> 2 * (t * P) + 10" "2 * (t * P) \<le> 2 * (m * 10) + 10"
    proof -
      have a: "2 * (round_half_even (nat t * 2 ^ s) 10 * 10) \<le> 2 * (nat t * 2 ^ s) + 10"
        and b: "2 * (nat t * 2 ^ s) \<le> 2 * (round_half_even (nat t * 2 ^ s) 10 * 10) + 10"
        using round_half_even_near [of 10 "nat t * 2 ^ s"] by simp_all
      from a have "int (2 * (round_half_even (nat t * 2 ^ s) 10 * 10)) \<le> int (2 * (nat t * 2 ^ s) + 10)"
        by (simp only: of_nat_le_iff)
      then show "2 * (m * 10) \<le> 2 * (t * P) + 10"
        using N by (simp add: m_def)
      from b have "int (2 * (nat t * 2 ^ s)) \<le> int (2 * (round_half_even (nat t * 2 ^ s) 10 * 10) + 10)"
        by (simp only: of_nat_le_iff)
      then show "2 * (t * P) \<le> 2 * (m * 10) + 10"
        using N by (simp add: m_def)
    qed
    define A where "A = k * P"
    define B where "B = r * P"
    have tP: "t * P = 10 * A + B" using tkr(1) by (simp add: A_def B_def algebra_simps)
    have B: "8 \<le> B \<and> B + 5 \<le> 10 * P"
    proof -
      from P have "8 \<le> P \<or> 4 \<le> P \<and> even t" by (simp add: P_def s_def)
      then show ?thesis
      proof
        assume p: "8 \<le> P"
        from False tkr have "1 \<le> r" "r \<le> 9" by simp_all
        then have "P \<le> r * P" "r * P \<le> 9 * P"
          using Ppos mult_right_mono [of 1 r P] mult_right_mono [of r 9 P] by simp_all
        with p show ?thesis unfolding B_def by linarith
      next
        assume p: "4 \<le> P \<and> even t"
        then have "even r" using tkr(1) by simp
        with False tkr have "2 \<le> r" "r \<le> 8" by presburger+
        then have "2 * P \<le> r * P" "r * P \<le> 8 * P"
          using Ppos mult_right_mono [of 2 r P] mult_right_mono [of r 8 P] by simp_all
        with p show ?thesis unfolding B_def by linarith
      qed
    qed
    have "A < m" using near tP B by linarith
    then have "k * P < m" by (simp add: A_def)
    moreover have "m \<le> A + P" using near tP B by linarith
    then have "m \<le> (k + 1) * P" by (simp add: A_def algebra_simps)
    ultimately have "- ((- m) div P) = k + 1"
      using Ppos by (intro ceiling_div)
    moreover from False tkr have "(t + 9) div 10 = k + 1" by presburger
    ultimately show ?thesis using mc by simp
  qed
qed


lemma power_two_ge:
  assumes "int j \<le> e"
  shows "(2::int) ^ j \<le> 2 ^ nat e"
proof -
  from assms have "j \<le> nat e" by simp
  then show ?thesis by (rule power_increasing) simp
qed

lemma ceil_double_tenth_small:
  assumes "0 \<le> t" and "t < 11258999068426240"
  shows "math_ceil (double_divide t 10) = (t + 9) div 10"
proof (cases "t = 0")
  case True
  then show ?thesis by (simp add: double_divide_def math_ceil_def)
next
  case False
  with assms have t: "0 < t" by simp
  have "nat t < 10 * 2 ^ 50" using assms by simp
  with t have q: "quotient_exponent (nat t) 10 < int 50"
    by (intro quotient_exponent_less) simp_all
  then have "int 3 \<le> 52 - quotient_exponent (nat t) 10" by simp
  then have "(2::int) ^ 3 \<le> 2 ^ nat (52 - quotient_exponent (nat t) 10)"
    by (rule power_two_ge)
  then have "8 \<le> (2::int) ^ nat (52 - quotient_exponent (nat t) 10)" by simp
  moreover from q have "quotient_exponent (nat t) 10 - 52 < 0" by simp
  ultimately show ?thesis using t by (intro ceil_double_tenth_core) simp_all
qed

lemma double_holds_even:
  assumes "double_holds t" and "9007199254740992 \<le> t"
  shows "even t"
proof -
  have "(2::nat) ^ 53 \<le> nat t" using assms(2) by simp
  also have "\<dots> < 2 ^ bits (nat t)" by (rule bits_upper)
  finally have "53 < bits (nat t)"
    by (simp only: power_strict_increasing_iff [of 2] one_less_numeral_iff semiring_norm)
  then have "bits (nat \<bar>t\<bar>) - 53 = Suc (bits (nat \<bar>t\<bar>) - 54)"
    using assms(2) by simp
  then have "(2::int) dvd 2 ^ (bits (nat \<bar>t\<bar>) - 53)" by simp
  moreover from assms(1) have "2 ^ (bits (nat \<bar>t\<bar>) - 53) dvd t"
    by (simp add: double_holds_def)
  ultimately show ?thesis by (rule dvd_trans)
qed

lemma ceil_double_tenth_middle:
  assumes "11258999068426240 \<le> t" and "t < 22517998136852480" and "double_holds t"
  shows "math_ceil (double_divide t 10) = (t + 9) div 10"
proof -
  from assms have t: "0 < t" by simp
  have "nat t < 10 * 2 ^ 51" using assms by simp
  with t have q: "quotient_exponent (nat t) 10 < int 51"
    by (intro quotient_exponent_less) simp_all
  then have "int 2 \<le> 52 - quotient_exponent (nat t) 10" by simp
  then have "(2::int) ^ 2 \<le> 2 ^ nat (52 - quotient_exponent (nat t) 10)"
    by (rule power_two_ge)
  then have "4 \<le> (2::int) ^ nat (52 - quotient_exponent (nat t) 10)" by simp
  moreover have "even t" using assms by (intro double_holds_even) simp_all
  moreover from q have "quotient_exponent (nat t) 10 - 52 < 0" by simp
  ultimately show ?thesis using t by (intro ceil_double_tenth_core) simp_all
qed

lemmas double_eval =
  double_divide_def math_ceil_def quotient_exponent_def round_half_even_def bits.simps Let_def

lemma ceil_double_tenth_last:
  assumes "22517998136852480 \<le> t" and "t < 22517998136852492" and "double_holds t"
  shows "math_ceil (double_divide t 10) = (t + 9) div 10"
proof -
  have "(2::nat) ^ 54 \<le> nat t" "nat t < 2 ^ Suc 54" using assms by simp_all
  then have "bits (nat t) = Suc 54" by (rule bits_eq)
  moreover have "nat \<bar>t\<bar> = nat t" using assms by simp
  ultimately have "4 dvd t" using assms(3) by (simp add: double_holds_def)
  with assms(1,2) have "t = 22517998136852480 \<or> t = 22517998136852484 \<or> t = 22517998136852488"
    by presburger
  then show ?thesis
    by (elim disjE) (simp_all add: double_eval)
qed

lemma ceil_double_tenth:
  assumes "0 \<le> t" and "t < 22517998136852492" and "double_holds t"
  shows "math_ceil (double_divide t 10) = (t + 9) div 10"
proof -
  consider "t < 11258999068426240" | "11258999068426240 \<le> t" "t < 22517998136852480"
    | "22517998136852480 \<le> t"
    by linarith
  then show ?thesis
  proof cases
    case 1
    with assms show ?thesis by (intro ceil_double_tenth_small)
  next
    case 2
    with assms show ?thesis by (intro ceil_double_tenth_middle)
  next
    case 3
    with assms show ?thesis by (intro ceil_double_tenth_last)
  qed
qed

lemma double_holds_safe: "\<bar>t\<bar> < 9007199254740992 \<Longrightarrow> double_holds t"
proof -
  assume a: "\<bar>t\<bar> < 9007199254740992"
  have "bits (nat \<bar>t\<bar>) \<le> 53"
  proof (cases "nat \<bar>t\<bar> = 0")
    case True
    then show ?thesis by (simp add: bits.simps)
  next
    case False
    then have "2 ^ (bits (nat \<bar>t\<bar>) - 1) \<le> nat \<bar>t\<bar>" by (intro bits_lower) simp
    also have "\<dots> < 2 ^ 53" using a by simp
    finally have "bits (nat \<bar>t\<bar>) - 1 < 53"
      by (simp only: power_strict_increasing_iff [of 2] one_less_numeral_iff semiring_norm)
    then show ?thesis by simp
  qed
  then show ?thesis by (simp add: double_holds_def)
qed

section \<open>Properties of the list request\<close>

lemma ceiling_tenth: "\<lceil>real_of_int t / 10\<rceil> = (t + 9) div 10"
proof (rule ceiling_unique)
  have a: "10 * ((t + 9) div 10 - 1) < t" by presburger
  have b: "t \<le> 10 * ((t + 9) div 10)" by presburger
  from a have "real_of_int (10 * ((t + 9) div 10 - 1)) < real_of_int t"
    by (simp only: of_int_less_iff)
  then show "real_of_int ((t + 9) div 10) - 1 < real_of_int t / 10" by simp
  from b have "real_of_int t \<le> real_of_int (10 * ((t + 9) div 10))"
    by (simp only: of_int_le_iff)
  then show "real_of_int t / 10 \<le> real_of_int ((t + 9) div 10)" by simp
qed

lemma totalPages_success:
  assumes "0 \<le> data_total d" and "data_total d < 22517998136852492"
    and "double_holds (data_total d)"
  shows "totalPages (fetchCharacters_finish (Inr d) s) = (data_total d + 9) div 10"
  using assms by (simp add: fetchCharacters_finish_def itemsPerPage_def ceil_double_tenth)

text \<open>
  Claim C2. Every run of \<^verbatim>\<open>fetchCharacters\<close> raises \<^verbatim>\<open>loading\<close> before the request and
  lowers it when the request is settled, whatever the outcome. When the request is
  rejected, \<^verbatim>\<open>characters\<close> becomes the empty list and \<^verbatim>\<open>totalPages\<close> becomes 1, the error
  is written to the console once, and no further request is issued. The run issues
  exactly one request.
\<close>

theorem C2_loading_cleared_and_fail_soft:
  "loading (fetchCharacters_start query page s) = True
   \<and> requests (fetchCharacters_start query page s) = requests s @ [characters_url query page]
   \<and> loading (fetchCharacters_finish res s') = False
   \<and> requests (fetchCharacters_finish res s') = requests s'
   \<and> characters (fetchCharacters_finish (Inl e) s') = []
   \<and> totalPages (fetchCharacters_finish (Inl e) s') = 1
   \<and> console (fetchCharacters_finish (Inl e) s')
       = console s' @ [(''Error fetching characters:'', e)]"
  by (cases res) (simp_all add: fetchCharacters_start_def fetchCharacters_finish_def)

text \<open>
  Claim C7 fails as stated. The quotient is a quotient of doubles. The integer
  22517998136852492 is a double; a tenth of it lies between \<^verbatim>\<open>2^51\<close> and \<^verbatim>\<open>2^52\<close>, where
  doubles are half a unit apart, so 2251799813685249.2 is rounded to 2251799813685249 and
  \<^verbatim>\<open>totalPages\<close> is one below the ceiling of \<^verbatim>\<open>total / 10\<close>.
\<close>

theorem C7_counterexample_double_quotient:
  "double_holds 22517998136852492
   \<and> totalPages (fetchCharacters_finish
         (Inr \<lparr>data_results = [], data_total = 22517998136852492\<rparr>) init) = 2251799813685249
   \<and> \<lceil>real_of_int 22517998136852492 / 10\<rceil> = 2251799813685250"
proof -
  have "double_holds 22517998136852492"
    by (simp add: double_holds_def bits.simps)
  moreover have "totalPages (fetchCharacters_finish
      (Inr \<lparr>data_results = [], data_total = 22517998136852492\<rparr>) init) = 2251799813685249"
    by (simp add: fetchCharacters_finish_def itemsPerPage_def double_eval)
  moreover have "\<lceil>real_of_int 22517998136852492 / 10\<rceil> = 2251799813685250"
    by (simp only: ceiling_tenth)
  ultimately show ?thesis by blast
qed

text \<open>
  Claim C7, amended. After a successful list request that reports \<^verbatim>\<open>total\<close> records,
  where \<^verbatim>\<open>total\<close> is a non-negative integer that is a double and is below
  22517998136852492, \<^verbatim>\<open>totalPages\<close> is the ceiling of \<^verbatim>\<open>total / 10\<close>: the one integer \<^verbatim>\<open>n\<close>
  with \<^verbatim>\<open>10 * (n - 1) < total \<le> 10 * n\<close>. Every integer below \<^verbatim>\<open>2^53\<close> is a double
  (\<^verbatim>\<open>double_holds_safe\<close>).
\<close>

theorem C7_totalPages_is_ceiling:
  assumes "0 \<le> data_total d" and "data_total d < 22517998136852492"
    and "double_holds (data_total d)"
  shows "totalPages (fetchCharacters_finish (Inr d) s) = \<lceil>real_of_int (data_total d) / 10\<rceil>
   \<and> 10 * (totalPages (fetchCharacters_finish (Inr d) s) - 1) < data_total d
   \<and> data_total d \<le> 10 * totalPages (fetchCharacters_finish (Inr d) s)"
proof -
  have "totalPages (fetchCharacters_finish (Inr d) s) = (data_total d + 9) div 10"
    using assms by (rule totalPages_success)
  moreover have "10 * ((data_total d + 9) div 10 - 1) < data_total d"
    by presburger
  moreover have "data_total d \<le> 10 * ((data_total d + 9) div 10)"
    by presburger
  ultimately show ?thesis
    by (simp add: ceiling_tenth)
qed

theorem C7_totalPages_is_ceiling_witness:
  "totalPages (fetchCharacters_finish (ok 82) init) = 9
   \<and> totalPages (fetchCharacters_finish
         (Inr \<lparr>data_results = [], data_total = 22517998136852488\<rparr>) init) = 2251799813685249"
proof -
  have a: "0 \<le> data_total \<lparr>data_results = [luke], data_total = 82\<rparr>"
    "data_total \<lparr>data_results = [luke], data_total = 82\<rparr> < 22517998136852492"
    "double_holds (data_total \<lparr>data_results = [luke], data_total = 82\<rparr>)"
    by (simp_all add: double_holds_def bits.simps)
  have b: "0 \<le> data_total \<lparr>data_results = [], data_total = 22517998136852488\<rparr>"
    "data_total \<lparr>data_results = [], data_total = 22517998136852488\<rparr> < 22517998136852492"
    "double_holds (data_total \<lparr>data_results = [], data_total = 22517998136852488\<rparr>)"
    by (simp_all add: double_holds_def bits.simps)
  have "\<lceil>real_of_int 82 / 10\<rceil> = 9" "\<lceil>real_of_int 22517998136852488 / 10\<rceil> = 2251799813685249"
    by (simp_all only: ceiling_tenth)
  with C7_totalPages_is_ceiling [OF a, of init] C7_totalPages_is_ceiling [OF b, of init]
  show ?thesis by (simp add: ok_def)
qed






















section \<open>Properties of the detail request\<close>

lemma those_None_iff: "those xs = None \<longleftrightarrow> None \<in> set xs"
  by (induction xs) (auto split: option.splits)

lemma those_Some_iff: "those xs = Some ys \<longleftrightarrow> xs = map Some ys"
  by (induction xs arbitrary: ys) (auto split: option.splits)

lemma settle_all_rejects:
  assumes "length vals = length ps" and "j < length ps" and "isl (ps ! j)"
    and "vals ! j = None" and "j \<in> set ord"
  shows "\<exists>e. settle_all ps vals ord = Some (Inl e)"
  using assms
proof (induction ord arbitrary: vals)
  case Nil
  then show ?case by simp
next
  case (Cons i ord)
  show ?case
  proof (cases "length ps \<le> i")
    case True
    with Cons.prems have "j \<in> set ord" by auto
    with Cons.IH [of vals] Cons.prems True show ?thesis by simp
  next
    case False
    show ?thesis
    proof (cases "ps ! i")
      case (Inl e)
      with False show ?thesis by simp
    next
      case (Inr v)
      with Cons.prems have ij: "i \<noteq> j" by auto
      with Cons.prems have n: "(vals[i := Some v]) ! j = None" by simp
      with Cons.prems have "None \<in> set (vals[i := Some v])"
        by (metis length_list_update nth_mem)
      then have t: "those (vals[i := Some v]) = None" by (simp add: those_None_iff)
      from ij Cons.prems have "j \<in> set ord" by auto
      with Cons.IH [of "vals[i := Some v]"] Cons.prems n
      have "\<exists>e. settle_all ps (vals[i := Some v]) ord = Some (Inl e)" by simp
      with False Inr t show ?thesis by simp
    qed
  qed
qed

lemma settle_all_fulfils:
  assumes "length vals = length ps"
    and "\<forall>j<length ps. \<exists>v. ps ! j = Inr v \<and> (vals ! j = None \<or> vals ! j = Some v)"
    and "\<forall>j<length ps. vals ! j = None \<longrightarrow> j \<in> set ord"
    and "\<exists>j<length ps. vals ! j = None"
  shows "settle_all ps vals ord = Some (Inr (map projr ps))"
  using assms
proof (induction ord arbitrary: vals)
  case Nil
  then show ?case by auto
next
  case (Cons i ord)
  show ?case
  proof (cases "length ps \<le> i")
    case True
    with Cons.prems have "\<forall>j<length ps. vals ! j = None \<longrightarrow> j \<in> set ord" by auto
    with Cons.IH [of vals] Cons.prems True show ?thesis by simp
  next
    case False
    then have i: "i < length ps" by simp
    with Cons.prems obtain v where v: "ps ! i = Inr v" by blast
    let ?vals = "vals[i := Some v]"
    have len: "length ?vals = length ps" using Cons.prems by simp
    have cons: "\<forall>j<length ps. \<exists>w. ps ! j = Inr w \<and> (?vals ! j = None \<or> ?vals ! j = Some w)"
    proof (intro allI impI)
      fix j assume j: "j < length ps"
      with Cons.prems obtain w where w: "ps ! j = Inr w" "vals ! j = None \<or> vals ! j = Some w"
        by blast
      show "\<exists>w. ps ! j = Inr w \<and> (?vals ! j = None \<or> ?vals ! j = Some w)"
      proof (cases "j = i")
        case True
        with v j Cons.prems(1) show ?thesis by simp
      next
        case False
        with w show ?thesis by simp
      qed
    qed
    show ?thesis
    proof (cases "those ?vals")
      case None
      then have "None \<in> set ?vals" by (simp add: those_None_iff)
      then obtain j where "j < length ps" "?vals ! j = None"
        using len by (metis in_set_conv_nth)
      then have ex: "\<exists>j<length ps. ?vals ! j = None" by blast
      have cover: "\<forall>j<length ps. ?vals ! j = None \<longrightarrow> j \<in> set ord"
        using Cons.prems i by (auto simp: nth_list_update split: if_splits)
      from Cons.IH [OF len cons cover ex] None v False show ?thesis by simp
    next
      case (Some vs)
      then have eq: "?vals = map Some vs" by (simp add: those_Some_iff)
      have "vs = map projr ps"
      proof (rule nth_equalityI)
        show "length vs = length (map projr ps)" using eq len by (metis length_map)
      next
        fix k assume "k < length vs"
        then have k: "k < length ps" using eq len by (metis length_map)
        with cons obtain w where w: "ps ! k = Inr w" "?vals ! k = None \<or> ?vals ! k = Some w" by blast
        from eq k \<open>k < length vs\<close> have "?vals ! k = Some (vs ! k)" by simp
        with w have "vs ! k = w" by simp
        with w k show "vs ! k = map projr ps ! k" by simp
      qed
      with Some v False show ?thesis by simp
    qed
  qed
qed

lemma promise_all_fulfils:
  assumes "\<forall>p\<in>set ps. \<not> isl p" and "{..<length ps} \<subseteq> set ord"
  shows "promise_all ps ord = Some (Inr (map projr ps))"
proof (cases "ps = []")
  case True
  then show ?thesis by (simp add: promise_all_def)
next
  case False
  have "settle_all ps (replicate (length ps) None) ord = Some (Inr (map projr ps))"
  proof (rule settle_all_fulfils)
    show "\<forall>j<length ps. \<exists>v. ps ! j = Inr v \<and>
        (replicate (length ps) None ! j = None \<or> replicate (length ps) None ! j = Some v)"
      using assms(1) by (metis isl_def nth_mem nth_replicate sum.exhaust_sel sum.collapse(2))
    show "\<forall>j<length ps. replicate (length ps) None ! j = None \<longrightarrow> j \<in> set ord"
      using assms(2) by auto
    show "\<exists>j<length ps. replicate (length ps) None ! j = None"
      using False by (intro exI [of _ 0]) simp
  qed simp
  with False show ?thesis by (simp add: promise_all_def)
qed

lemma promise_all_rejects:
  assumes "p \<in> set ps" and "isl p" and "{..<length ps} \<subseteq> set ord"
  shows "\<exists>e. promise_all ps ord = Some (Inl e)"
proof -
  from assms(1) obtain j where j: "j < length ps" "ps ! j = p"
    by (metis in_set_conv_nth)
  with assms have "\<exists>e. settle_all ps (replicate (length ps) None) ord = Some (Inl e)"
    by (intro settle_all_rejects [of _ _ j]) auto
  moreover from assms(1) have "ps \<noteq> []" by auto
  ultimately show ?thesis by (simp add: promise_all_def)
qed

lemma homeworld_step_fst: "fst (homeworld_step net c) = (case homeworld c of None \<Rightarrow> [] | Some u \<Rightarrow> if u = [] then [] else [u])"
  by (simp add: homeworld_step_def split: option.splits)

lemma homeworld_step_ok:
  assumes "\<forall>u. homeworld c = Some u \<and> u \<noteq> [] \<longrightarrow> \<not> isl (net u)"
  shows "\<exists>hn. snd (homeworld_step net c) = Inr hn"
  using assms by (auto simp: homeworld_step_def split: option.splits sum.splits)

lemma homeworld_step_fails:
  assumes "homeworld c = Some u" and "u \<noteq> []" and "isl (net u)"
  shows "\<exists>e. snd (homeworld_step net c) = Inl e"
  using assms by (auto simp: homeworld_step_def split: option.splits sum.splits)

lemma species_step_fst: "fst (species_step net c) = take 1 (species c)"
  by (simp add: species_step_def split: list.splits)

lemma species_step_ok:
  assumes "species c \<noteq> [] \<longrightarrow> \<not> isl (net (hd (species c)))"
  shows "snd (species_step net c) =
    Inr (case species c of [] \<Rightarrow> ''Unknown'' | u # _ \<Rightarrow> data_name (projr (net u)))"
  using assms by (auto simp: species_step_def split: list.splits sum.splits)

lemma species_step_fails:
  assumes "species c \<noteq> []" and "isl (net (hd (species c)))"
  shows "\<exists>e. snd (species_step net c) = Inl e"
  using assms by (auto simp: species_step_def split: list.splits sum.splits)

lemma films_step_fst: "fst (films_step net ord c) = films c"
  by (simp add: films_step_def)

lemma films_step_ok:
  assumes "{..<length (films c)} \<subseteq> set ord" and "\<forall>u\<in>set (films c). \<not> isl (net u)"
  shows "snd (films_step net ord c) = Some (Inr (map (\<lambda>u. data_title (projr (net u))) (films c)))"
proof (cases "films c = []")
  case True
  then show ?thesis by (simp add: films_step_def)
next
  case False
  have "promise_all (map net (films c)) ord = Some (Inr (map projr (map net (films c))))"
    using assms by (intro promise_all_fulfils) auto
  with False show ?thesis by (simp add: films_step_def comp_def)
qed

lemma films_step_fails:
  assumes "{..<length (films c)} \<subseteq> set ord" and "u \<in> set (films c)" and "isl (net u)"
  shows "\<exists>e. snd (films_step net ord c) = Some (Inl e)"
proof -
  from assms have "\<exists>e. promise_all (map net (films c)) ord = Some (Inl e)"
    by (intro promise_all_rejects [of "net u"]) auto
  moreover from assms have "films c \<noteq> []" by auto
  ultimately show ?thesis by (auto simp: films_step_def)
qed

lemma try_success:
  assumes "{..<length (films c)} \<subseteq> set ord"
    and "\<forall>u. homeworld c = Some u \<and> u \<noteq> [] \<longrightarrow> \<not> isl (net u)"
    and "species c \<noteq> [] \<longrightarrow> \<not> isl (net (hd (species c)))"
    and "\<forall>u\<in>set (films c). \<not> isl (net u)"
  shows "\<exists>d. fetchCharacterDetails_try net ord c =
           (fst (homeworld_step net c) @ take 1 (species c) @ films c, Some (Inr d))
         \<and> species_name d = (case species c of [] \<Rightarrow> ''Unknown'' | u # _ \<Rightarrow> data_name (projr (net u)))
         \<and> film_titles d = map (\<lambda>u. data_title (projr (net u))) (films c)"
proof -
  from assms(2) obtain hn where hn: "snd (homeworld_step net c) = Inr hn"
    using homeworld_step_ok by blast
  have sp: "snd (species_step net c) =
      Inr (case species c of [] \<Rightarrow> ''Unknown'' | u # _ \<Rightarrow> data_name (projr (net u)))"
    using assms(3) by (rule species_step_ok)
  have fl: "snd (films_step net ord c)
      = Some (Inr (map (\<lambda>u. data_title (projr (net u))) (films c)))"
    using assms(1) assms(4) by (rule films_step_ok)
  obtain r1 where h: "homeworld_step net c = (r1, Inr hn)"
    using hn by (cases "homeworld_step net c") simp
  obtain r2 where s: "species_step net c = (r2, Inr (case species c of [] \<Rightarrow> ''Unknown'' | u # _ \<Rightarrow> data_name (projr (net u))))" "r2 = take 1 (species c)"
    using sp species_step_fst [of net c] by (cases "species_step net c") simp
  obtain r3 where f: "films_step net ord c = (r3, Some (Inr (map (\<lambda>u. data_title (projr (net u))) (films c))))" "r3 = films c"
    using fl films_step_fst [of net ord c] by (cases "films_step net ord c") simp
  show ?thesis
    by (simp add: fetchCharacterDetails_try_def h s f)
qed

lemma try_failure:
  assumes "{..<length (films c)} \<subseteq> set ord"
    and "(\<exists>u. homeworld c = Some u \<and> u \<noteq> [] \<and> isl (net u))
       \<or> (species c \<noteq> [] \<and> isl (net (hd (species c))))
       \<or> (\<exists>u\<in>set (films c). isl (net u))"
  shows "\<exists>rs e. fetchCharacterDetails_try net ord c = (rs, Some (Inl e))"
proof -
  obtain r1 x1 where h: "homeworld_step net c = (r1, x1)" by (cases "homeworld_step net c")
  obtain r2 x2 where s: "species_step net c = (r2, x2)" by (cases "species_step net c")
  obtain r3 x3 where f: "films_step net ord c = (r3, x3)" by (cases "films_step net ord c")
  show ?thesis
  proof (cases x1)
    case (Inl e)
    with h show ?thesis by (simp add: fetchCharacterDetails_try_def)
  next
    case hw: (Inr hn)
    show ?thesis
    proof (cases x2)
      case (Inl e)
      with h hw s show ?thesis by (simp add: fetchCharacterDetails_try_def)
    next
      case sp: (Inr sn)
      from hw h have "\<not> (\<exists>u. homeworld c = Some u \<and> u \<noteq> [] \<and> isl (net u))"
        using homeworld_step_fails [of c _ net] by fastforce
      moreover from sp s have "\<not> (species c \<noteq> [] \<and> isl (net (hd (species c))))"
        using species_step_fails [of c net] by fastforce
      ultimately obtain u where "u \<in> set (films c)" "isl (net u)"
        using assms(2) by blast
      with assms(1) f obtain e where "x3 = Some (Inl e)"
        using films_step_fails [of c ord u net] by auto
      with h hw s sp f show ?thesis by (simp add: fetchCharacterDetails_try_def)
    qed
  qed
qed

lemma try_requests:
  "set (fst (fetchCharacterDetails_try net ord c))
     \<subseteq> set (fst (homeworld_step net c)) \<union> set (take 1 (species c)) \<union> set (films c)"
proof -
  obtain r1 x1 where h: "homeworld_step net c = (r1, x1)" by (cases "homeworld_step net c")
  obtain r2 x2 where s: "species_step net c = (r2, x2)" by (cases "species_step net c")
  obtain r3 x3 where f: "films_step net ord c = (r3, x3)" by (cases "films_step net ord c")
  from s have r2: "r2 = take 1 (species c)"
    using species_step_fst [of net c] by simp
  from f have r3: "r3 = films c"
    using films_step_fst [of net ord c] by simp
  show ?thesis
    by (auto simp: fetchCharacterDetails_try_def h s f r2 r3 split: sum.splits option.splits)
qed

text \<open>
  Claim C3. Enrichment is all or nothing. Let every film request settle. If the homeworld
  request, the request for the first species or any film request is rejected, then the
  \<^verbatim>\<open>try\<close> body ends in an error and yields no details object, \<^verbatim>\<open>selectedChar\<close> keeps the
  value it had (the modal is not opened, nothing partial is stored), and the error is
  written to the console once.
\<close>

theorem C3_all_or_nothing:
  assumes "{..<length (films c)} \<subseteq> set ord"
    and "(\<exists>u. homeworld c = Some u \<and> u \<noteq> [] \<and> isl (net u))
       \<or> (species c \<noteq> [] \<and> isl (net (hd (species c))))
       \<or> (\<exists>u\<in>set (films c). isl (net u))"
  shows "\<exists>rs e. fetchCharacterDetails_try net ord c = (rs, Some (Inl e))
           \<and> selectedChar (fetchCharacterDetails net ord c s) = selectedChar s
           \<and> console (fetchCharacterDetails net ord c s)
               = console s @ [(''Error fetching character details:'', e)]"
proof -
  from try_failure [OF assms] obtain rs e
    where "fetchCharacterDetails_try net ord c = (rs, Some (Inl e))" by blast
  then show ?thesis by (simp add: fetchCharacterDetails_def)
qed

theorem C3_all_or_nothing_witness:
  "\<exists>rs e. fetchCharacterDetails_try swapi [2, 0, 1] luke_three_films = (rs, Some (Inl e))
     \<and> selectedChar (fetchCharacterDetails swapi [2, 0, 1] luke_three_films init) = selectedChar init
     \<and> console (fetchCharacterDetails swapi [2, 0, 1] luke_three_films init)
         = console init @ [(''Error fetching character details:'', e)]"
proof (rule C3_all_or_nothing)
  show "{..<length (films luke_three_films)} \<subseteq> set [2, 0, 1]"
    by (auto simp: luke_three_films_def luke_def)
  have "isl (swapi ''/films/7'')" by (simp add: swapi_def)
  then show "(\<exists>u. homeworld luke_three_films = Some u \<and> u \<noteq> [] \<and> isl (swapi u))
       \<or> (species luke_three_films \<noteq> [] \<and> isl (swapi (hd (species luke_three_films))))
       \<or> (\<exists>u\<in>set (films luke_three_films). isl (swapi u))"
    by (simp add: luke_three_films_def luke_def)
qed

text \<open>
  Claim C5. All film URLs are requested together, whatever the outcomes. When every
  request of the enrichment succeeds, \<^verbatim>\<open>film_titles\<close> of the stored details is the list of
  the titles of the film resources in the order of \<^verbatim>\<open>films\<close>, for every order \<^verbatim>\<open>ord\<close> in
  which the film requests settle; it is empty exactly when \<^verbatim>\<open>films\<close> is empty.
\<close>

theorem C5_film_titles_in_input_order:
  assumes "{..<length (films c)} \<subseteq> set ord"
    and "\<forall>u. homeworld c = Some u \<and> u \<noteq> [] \<longrightarrow> \<not> isl (net u)"
    and "species c \<noteq> [] \<longrightarrow> \<not> isl (net (hd (species c)))"
    and "\<forall>u\<in>set (films c). \<not> isl (net u)"
  shows "\<exists>d. selectedChar (fetchCharacterDetails net ord c s) = Some d
           \<and> film_titles d = map (\<lambda>u. data_title (projr (net u))) (films c)
           \<and> (films c = [] \<longleftrightarrow> film_titles d = [])
           \<and> fst (films_step net ord c) = films c"
proof -
  from try_success [OF assms] obtain d
    where "fetchCharacterDetails_try net ord c =
             (fst (homeworld_step net c) @ take 1 (species c) @ films c, Some (Inr d))"
      and "film_titles d = map (\<lambda>u. data_title (projr (net u))) (films c)"
    by blast
  then show ?thesis by (simp add: fetchCharacterDetails_def films_step_fst)
qed

theorem C5_film_titles_in_input_order_witness:
  "\<exists>d. selectedChar (fetchCharacterDetails swapi [1, 0] luke init) = Some d
     \<and> film_titles d = [''A New Hope'', ''The Empire Strikes Back'']"
proof -
  have "{..<length (films luke)} \<subseteq> set [1, 0]"
    by (auto simp: luke_def)
  moreover have "\<forall>u. homeworld luke = Some u \<and> u \<noteq> [] \<longrightarrow> \<not> isl (swapi u)"
    by (simp add: luke_def swapi_def)
  moreover have "species luke \<noteq> [] \<longrightarrow> \<not> isl (swapi (hd (species luke)))"
    by (simp add: luke_def)
  moreover have "\<forall>u\<in>set (films luke). \<not> isl (swapi u)"
    by (simp add: luke_def swapi_def)
  ultimately have "\<exists>d. selectedChar (fetchCharacterDetails swapi [1, 0] luke init) = Some d
      \<and> film_titles d = map (\<lambda>u. data_title (projr (swapi u))) (films luke)
      \<and> (films luke = [] \<longleftrightarrow> film_titles d = [])
      \<and> fst (films_step swapi [1, 0] luke) = films luke"
    by (rule C5_film_titles_in_input_order)
  then obtain d where "selectedChar (fetchCharacterDetails swapi [1, 0] luke init) = Some d"
    and "film_titles d = map (\<lambda>u. data_title (projr (swapi u))) (films luke)"
    by blast
  moreover have "map (\<lambda>u. data_title (projr (swapi u))) (films luke)
      = [''A New Hope'', ''The Empire Strikes Back'']"
    by (simp add: luke_def swapi_def)
  ultimately show ?thesis
    by simp
qed

text \<open>
  Claim C8. When every request of the enrichment succeeds, \<^verbatim>\<open>species_name\<close> of the
  stored details is \<^verbatim>\<open>"Unknown"\<close> for an empty \<^verbatim>\<open>species\<close> list and the \<^verbatim>\<open>name\<close> of the
  resource at the first species URL otherwise; of the species URLs only the first is
  requested. Whatever the network and the outcome, every URL requested is the homeworld,
  the first species URL or a film URL.
\<close>

theorem C8_first_species_only:
  assumes "{..<length (films c)} \<subseteq> set ord"
    and "\<forall>u. homeworld c = Some u \<and> u \<noteq> [] \<longrightarrow> \<not> isl (net u)"
    and "species c \<noteq> [] \<longrightarrow> \<not> isl (net (hd (species c)))"
    and "\<forall>u\<in>set (films c). \<not> isl (net u)"
  shows "\<exists>d. selectedChar (fetchCharacterDetails net ord c s) = Some d
           \<and> species_name d =
               (case species c of [] \<Rightarrow> ''Unknown'' | u # _ \<Rightarrow> data_name (projr (net u)))
           \<and> requests (fetchCharacterDetails net ord c s)
               = requests s @ fst (homeworld_step net c) @ take 1 (species c) @ films c
           \<and> fst (species_step net c) = take 1 (species c)
           \<and> (\<forall>net' ord'. set (fst (fetchCharacterDetails_try net' ord' c))
               \<subseteq> set (fst (homeworld_step net' c)) \<union> set (take 1 (species c))
                   \<union> set (films c))"
proof -
  from try_success [OF assms] obtain d
    where "fetchCharacterDetails_try net ord c =
             (fst (homeworld_step net c) @ take 1 (species c) @ films c, Some (Inr d))"
      and "species_name d =
             (case species c of [] \<Rightarrow> ''Unknown'' | u # _ \<Rightarrow> data_name (projr (net u)))"
    by blast
  then show ?thesis
    using try_requests [of _ _ c]
    by (simp add: fetchCharacterDetails_def species_step_fst)
qed

theorem C8_first_species_only_witness:
  "\<exists>d. selectedChar (fetchCharacterDetails swapi [0] chewbacca init) = Some d
     \<and> species_name d = ''Wookie''
     \<and> requests (fetchCharacterDetails swapi [0] chewbacca init)
         = [''/planets/14'', ''/species/3'', ''/films/1'']"
proof -
  have "{..<length (films chewbacca)} \<subseteq> set [0]"
    by (auto simp: chewbacca_def)
  moreover have "\<forall>u. homeworld chewbacca = Some u \<and> u \<noteq> [] \<longrightarrow> \<not> isl (swapi u)"
    by (simp add: chewbacca_def swapi_def)
  moreover have "species chewbacca \<noteq> [] \<longrightarrow> \<not> isl (swapi (hd (species chewbacca)))"
    by (simp add: chewbacca_def swapi_def)
  moreover have "\<forall>u\<in>set (films chewbacca). \<not> isl (swapi u)"
    by (simp add: chewbacca_def swapi_def)
  ultimately obtain d where "selectedChar (fetchCharacterDetails swapi [0] chewbacca init) = Some d"
    and "species_name d =
          (case species chewbacca of [] \<Rightarrow> ''Unknown'' | u # _ \<Rightarrow> data_name (projr (swapi u)))"
    and "requests (fetchCharacterDetails swapi [0] chewbacca init)
          = requests init @ fst (homeworld_step swapi chewbacca) @ take 1 (species chewbacca)
              @ films chewbacca"
    using C8_first_species_only [of chewbacca "[0]" swapi init] by blast
  moreover have "(case species chewbacca of [] \<Rightarrow> ''Unknown'' | u # _ \<Rightarrow> data_name (projr (swapi u)))
      = ''Wookie''"
    by (simp add: chewbacca_def swapi_def)
  moreover have "requests init @ fst (homeworld_step swapi chewbacca) @ take 1 (species chewbacca)
      @ films chewbacca = [''/planets/14'', ''/species/3'', ''/films/1'']"
    by (simp add: chewbacca_def swapi_def init_def homeworld_step_def)
  ultimately show ?thesis
    by simp
qed

text \<open>
  Claim C10. \<^verbatim>\<open>fetchCharacterDetails\<close> leaves \<^verbatim>\<open>characters\<close>, \<^verbatim>\<open>search\<close>, \<^verbatim>\<open>currentPage\<close>,
  \<^verbatim>\<open>totalPages\<close> and \<^verbatim>\<open>loading\<close> as they were, for every record, network and outcome;
  \<^verbatim>\<open>selectedChar\<close> becomes the new details object when the \<^verbatim>\<open>try\<close> body succeeds and
  keeps its previous value otherwise.
\<close>

theorem C10_frame:
  "characters (fetchCharacterDetails net ord c s) = characters s
   \<and> search (fetchCharacterDetails net ord c s) = search s
   \<and> currentPage (fetchCharacterDetails net ord c s) = currentPage s
   \<and> totalPages (fetchCharacterDetails net ord c s) = totalPages s
   \<and> loading (fetchCharacterDetails net ord c s) = loading s
   \<and> selectedChar (fetchCharacterDetails net ord c s)
       = (case snd (fetchCharacterDetails_try net ord c) of
            Some (Inr d) \<Rightarrow> Some d
          | Some (Inl e) \<Rightarrow> selectedChar s
          | None \<Rightarrow> selectedChar s)"
  by (cases "fetchCharacterDetails_try net ord c")
    (simp add: fetchCharacterDetails_def split: option.splits sum.splits)

section \<open>Properties of runs\<close>

lemma fetchCharacters_finish_Inr:
  assumes "0 \<le> data_total d" and "data_total d < 11258999068426240"
  shows "fetchCharacters_finish (Inr d) s =
     s\<lparr>characters := data_results d, totalPages := (data_total d + 9) div 10, loading := False\<rparr>"
  using assms
  by (simp add: fetchCharacters_finish_def itemsPerPage_def ceil_double_tenth_small)

lemma fetchCharacters_finish_Inl:
  "fetchCharacters_finish (Inl e) s =
     s\<lparr>console := console s @ [(''Error fetching characters:'', e)], characters := [],
       totalPages := 1, loading := False\<rparr>"
  by (simp add: fetchCharacters_finish_def)

lemmas run_defs =
  step_def elapse_def commit_def effect_currentPage_def effect_search_def debouncedSearch_def
  debouncedSearch_fire_def fetchCharacters_start_def fetchCharacters_finish_Inr
  fetchCharacters_finish_Inl pagination_shown_def mount_def init_def ok_def luke_def

text \<open>
  Claim C1, evaluated where the code departs from it. The user has searched for
  \<^verbatim>\<open>Luke\<close>, the answer reports 12 records (two pages), and the user clicks the button of
  page 2. \<^verbatim>\<open>search\<close> is still \<^verbatim>\<open>Luke\<close> and \<^verbatim>\<open>currentPage\<close> becomes 2, but the request
  that the page effect issues has no search parameter: the effect calls
  \<^verbatim>\<open>fetchCharacters("", currentPage)\<close>. The last line is the URL for the search term and
  the new page, which the claim expects. (The other half of the claim holds: the
  debounced function requests the new term with page 1, see \<^verbatim>\<open>debounce_fire_requests\<close>.)
\<close>

theorem C1_page_click_drops_search:
  "search (run page_2_of_search mount) = ''Luke''
   \<and> currentPage (run page_2_of_search mount) = 2
   \<and> last (requests (run page_2_of_search mount))
       = ''https://star-wars-backend-hne5.onrender.com/characters?page=2''
   \<and> characters_url (search (run page_2_of_search mount)) (currentPage (run page_2_of_search mount))
       = ''https://star-wars-backend-hne5.onrender.com/characters?search=Luke&page=2''"
  by (simp add: page_2_of_search_def run_defs characters_url_def number_to_string_def
      digits.simps)

lemma elapse_not_due: "not_due d s \<Longrightarrow> elapse d s = s\<lparr>now := now s + d\<rparr>"
  by (auto simp: not_due_def elapse_def split: option.splits)

lemma search_input_step:
  assumes "not_due d s" and "q \<noteq> search s"
  shows "step (SearchInput q) (elapse d s)
    = s\<lparr>search := q, timer := Some (q, now s + d + 500), now := now s + d\<rparr>"
  using assms
  by (simp add: elapse_not_due step_def commit_def effect_search_def debouncedSearch_def)

lemma typing_run:
  assumes "us \<noteq> []" and "not_due (fst (hd us)) s" and "changes (search s) (map snd us)"
    and "list_all (\<lambda>d. d < 500) (map fst (tl us))"
  shows "run (typing us) s
    = s\<lparr>search := snd (last us),
        timer := Some (snd (last us), now s + sum_list (map fst us) + 500),
        now := now s + sum_list (map fst us)\<rparr>"
  using assms
proof (induction us arbitrary: s)
  case Nil
  then show ?case by simp
next
  case (Cons u us)
  obtain d q where u: "u = (d, q)" by (cases u)
  let ?s = "s\<lparr>search := q, timer := Some (q, now s + d + 500), now := now s + d\<rparr>"
  from Cons.prems u have one: "step (SearchInput q) (elapse d s) = ?s"
    by (intro search_input_step) auto
  show ?case
  proof (cases us)
    case Nil
    with one u show ?thesis by (simp add: typing_def)
  next
    case (Cons u' us')
    obtain d' q' where u': "u' = (d', q')" by (cases u')
    have "run (typing us) ?s
      = ?s\<lparr>search := snd (last us),
          timer := Some (snd (last us), now ?s + sum_list (map fst us) + 500),
          now := now ?s + sum_list (map fst us)\<rparr>"
    proof (rule Cons.IH)
      show "us \<noteq> []" using Cons by simp
      show "not_due (fst (hd us)) ?s"
        using Cons.prems(4) Cons u' by (simp add: not_due_def)
      show "changes (search ?s) (map snd us)"
        using Cons.prems(3) u by simp
      show "list_all (\<lambda>d. d < 500) (map fst (tl us))"
        using Cons.prems(4) Cons by simp
    qed
    with one u Cons show ?thesis by (simp add: typing_def add.assoc)
  qed
qed

lemma elapse_armed:
  assumes "timer s = Some (q, now s + 500)"
  shows "d < 500 \<Longrightarrow> requests (elapse d s) = requests s"
    and "500 \<le> d \<Longrightarrow> requests (elapse d s)
      = requests s @ characters_url q 1 # (if currentPage s = 1 then [] else [characters_url [] 1])"
    and "500 \<le> d \<Longrightarrow> currentPage (elapse d s) = 1"
    and "500 \<le> d \<Longrightarrow> timer (elapse d s) = None"
  using assms
  by (simp_all add: elapse_def commit_def Let_def effect_currentPage_def effect_search_def
      debouncedSearch_def debouncedSearch_fire_def fetchCharacters_start_def)

text \<open>
  Claim C4, amended. Take one or more updates of the search term, each less than 500 ms
  after the one before. No request is issued while they arrive, nor in the 500 ms after
  the last. Once 500 ms have passed, the debounced function has run exactly once, with
  the last term: \<^verbatim>\<open>currentPage\<close> is 1 and one request for the last term and page 1 has
  been issued. It is the only request when \<^verbatim>\<open>currentPage\<close> was 1 already; otherwise the
  change of \<^verbatim>\<open>currentPage\<close> triggers the page effect, which issues one more request for
  page 1.
\<close>

theorem C4_debounce_runs_once_with_last_term:
  assumes "us \<noteq> []" and "not_due (fst (hd us)) s" and "changes (search s) (map snd us)"
    and "list_all (\<lambda>d. d < 500) (map fst (tl us))"
  shows "requests (run (typing us) s) = requests s
     \<and> (d < 500 \<longrightarrow> requests (elapse d (run (typing us) s)) = requests s)
     \<and> (500 \<le> d \<longrightarrow>
          (\<exists>q. requests (elapse d (run (typing us) s))
             = requests s @ characters_url (snd (last us)) 1
                 # (if currentPage s = 1 then [] else [characters_url q 1]))
          \<and> currentPage (elapse d (run (typing us) s)) = 1
          \<and> timer (elapse d (run (typing us) s)) = None)"
proof -
  let ?s = "run (typing us) s"
  have r: "?s = s\<lparr>search := snd (last us),
        timer := Some (snd (last us), now s + sum_list (map fst us) + 500),
        now := now s + sum_list (map fst us)\<rparr>"
    using assms by (rule typing_run)
  then have t: "timer ?s = Some (snd (last us), now ?s + 500)"
    and same: "requests ?s = requests s" "currentPage ?s = currentPage s"
    by simp_all
  from elapse_armed [OF t, of d] same show ?thesis
    by auto
qed

theorem C4_debounce_runs_once_with_last_term_witness:
  "requests (elapse 499 (run (typing [(1000, ''L''), (200, ''Lu'')]) (run browse_to_page_3 mount)))
     = requests (run browse_to_page_3 mount)
   \<and> currentPage (elapse 500 (run (typing [(1000, ''L''), (200, ''Lu'')]) (run browse_to_page_3 mount))) = 1
   \<and> timer (elapse 500 (run (typing [(1000, ''L''), (200, ''Lu'')]) (run browse_to_page_3 mount))) = None"
proof -
  let ?s = "run browse_to_page_3 mount"
  let ?us = "[(1000, ''L''), (200, ''Lu'')] :: (nat \<times> string) list"
  have s: "timer ?s = None" "search ?s = []"
    by (simp_all add: browse_to_page_3_def run_defs)
  have h: "?us \<noteq> []" "not_due (fst (hd ?us)) ?s" "changes (search ?s) (map snd ?us)"
    "list_all (\<lambda>d. d < 500) (map fst (tl ?us))"
    by (simp_all add: s not_due_def)
  from C4_debounce_runs_once_with_last_term [OF h, of 499]
    C4_debounce_runs_once_with_last_term [OF h, of 500]
  show ?thesis by simp
qed

text \<open>
  Claim C4 fails as stated. On page 3 the user types \<^verbatim>\<open>L\<close> and, 200 ms later, \<^verbatim>\<open>Lu\<close>.
  When 500 ms have passed, two requests have been issued, not one: the request of the
  debounced function, and the request of the page effect, which runs because the
  debounced function has set \<^verbatim>\<open>currentPage\<close> from 3 to 1.
\<close>

theorem C4_counterexample_two_requests_from_page_3:
  "currentPage (run browse_to_page_3 mount) = 3
   \<and> requests (elapse 500 (run (typing [(1000, ''L''), (200, ''Lu'')]) (run browse_to_page_3 mount)))
       = requests (run browse_to_page_3 mount)
         @ [''https://star-wars-backend-hne5.onrender.com/characters?search=Lu&page=1'',
            ''https://star-wars-backend-hne5.onrender.com/characters?page=1'']"
  by (simp add: browse_to_page_3_def typing_def run_defs characters_url_def
      number_to_string_def digits.simps)

text \<open>
  Claim C6 fails as stated. A search without a match is answered with \<^verbatim>\<open>total = 0\<close>;
  \<^verbatim>\<open>totalPages\<close> becomes \<^verbatim>\<open>Math.ceil(0 / 10) = 0\<close> while \<^verbatim>\<open>currentPage\<close> is 1.
\<close>

theorem C6_counterexample_search_without_match:
  "totalPages (run search_without_match mount) = 0
   \<and> currentPage (run search_without_match mount) = 1
   \<and> \<not> page_in_range (run search_without_match mount)"
  by (simp add: search_without_match_def run_defs page_in_range_def characters_url_def
      number_to_string_def digits.simps)

lemma commit_pages:
  "currentPage (commit old new) = currentPage new"
  "totalPages (commit old new) = totalPages new"
  by (simp_all add: commit_def Let_def effect_currentPage_def effect_search_def
      debouncedSearch_def fetchCharacters_start_def)

lemma page_in_range_commit: "page_in_range (commit old new) = page_in_range new"
  by (simp add: page_in_range_def commit_pages)

lemma fetchCharacterDetails_pages:
  "currentPage (fetchCharacterDetails net ord c s) = currentPage s"
  "totalPages (fetchCharacterDetails net ord c s) = totalPages s"
  by (cases "fetchCharacterDetails_try net ord c";
      simp add: fetchCharacterDetails_def split: option.splits sum.splits)+

lemma page_in_range_mount: "page_in_range mount"
  by (simp add: page_in_range_def mount_def init_def effect_currentPage_def effect_search_def
      debouncedSearch_def fetchCharacters_start_def)

lemma page_in_range_elapse:
  assumes "page_in_range s"
  shows "page_in_range (elapse d s)"
proof (cases "timer s")
  case None
  with assms show ?thesis by (simp add: elapse_def page_in_range_def)
next
  case (Some a)
  obtain query due where "a = (query, due)" by (cases a)
  with Some assms show ?thesis
    by (simp add: elapse_def page_in_range_def commit_pages debouncedSearch_fire_def
        fetchCharacters_start_def)
qed

lemma page_in_range_user_event:
  assumes "page_in_range s" and "\<not> is_response e"
  shows "page_in_range (step e s)"
proof -
  have "page_in_range (handler e s)"
    using assms
    by (cases e) (auto simp: page_in_range_def fetchCharacterDetails_pages)
  then show ?thesis by (simp add: step_def page_in_range_commit)
qed

lemma page_in_range_response:
  assumes "page_in_range s" and "k < length (pending s)"
  shows "page_in_range (step (ListResponse k res) s)
     = (currentPage s \<le> totalPages (fetchCharacters_finish res s))"
proof -
  have "page_in_range (step (ListResponse k res) s)
      = page_in_range (handler (ListResponse k res) s)"
    by (simp add: step_def page_in_range_commit)
  also have "\<dots> = (currentPage s \<le> totalPages (fetchCharacters_finish res s))"
    using assms
    by (cases res) (auto simp: page_in_range_def fetchCharacters_finish_def)
  finally show ?thesis .
qed

lemma pagination_pages:
  "currentPage (step PrevPage s)
     = (if pagination_shown s then max (currentPage s - 1) 1 else currentPage s)"
  "currentPage (step NextPage s)
     = (if pagination_shown s then min (currentPage s + 1) (totalPages s) else currentPage s)"
  "currentPage (step (PageButton i) s)
     = (if pagination_shown s \<and> int i < totalPages s then int i + 1 else currentPage s)"
  by (simp_all add: step_def commit_pages)

lemma pagination_totalPages:
  assumes "is_pagination e"
  shows "totalPages (step e s) = totalPages s"
  using assms by (cases e) (simp_all add: step_def commit_pages)

lemma pagination_requests:
  assumes "is_pagination e"
  shows "requests (step e s) =
     requests s @ (if currentPage (step e s) = currentPage s then []
                   else [characters_url [] (currentPage (step e s))])"
  using assms
  by (cases e)
    (simp_all add: step_def commit_def Let_def effect_currentPage_def effect_search_def
      debouncedSearch_def fetchCharacters_start_def)

lemma debounce_fire_requests:
  assumes "timer s = Some (query, due)" and "due \<le> now s + d"
  shows "requests (elapse d s) =
     requests s @ characters_url query 1
       # (if currentPage s = 1 then [] else [characters_url [] 1])"
  using assms
  by (simp add: elapse_def commit_def Let_def effect_currentPage_def effect_search_def
      debouncedSearch_def debouncedSearch_fire_def fetchCharacters_start_def)

text \<open>
  Outside the range the buttons do not bring the page back into it. After the late answer
  \<^verbatim>\<open>currentPage\<close> is 5 and \<^verbatim>\<open>totalPages\<close> is 1, the bar is shown; the Prev button moves to
  page 4 and page 4 is requested.
\<close>

lemma prev_outside_range:
  "currentPage (run late_search_answer mount) = 5
   \<and> totalPages (run late_search_answer mount) = 1
   \<and> pagination_shown (run late_search_answer mount)
   \<and> currentPage (step PrevPage (run late_search_answer mount)) = 4
   \<and> last (requests (step PrevPage (run late_search_answer mount)))
       = ''https://star-wars-backend-hne5.onrender.com/characters?page=4''"
  by (simp add: late_search_answer_def run_defs characters_url_def number_to_string_def
      digits.simps)

text \<open>
  Claim C6, amended. \<^verbatim>\<open>1 \<le> currentPage \<le> totalPages\<close> holds after the mount. From a state
  within this range, the passing of time (the debounce included) and every event but the
  answer to a list request lead to a state within it. In every state, the Prev button
  never moves to a page below 1, the Next button never moves to a page above
  \<^verbatim>\<open>totalPages\<close>, and a numbered button moves to a page from 1 to \<^verbatim>\<open>totalPages\<close>; a click
  on one of them leaves \<^verbatim>\<open>totalPages\<close> as it is and issues a request only when it changes
  the page, one request, for the new page. From a state within the range, the answer to a
  list request leads to a state within it exactly when \<^verbatim>\<open>currentPage\<close> is at most the
  \<^verbatim>\<open>totalPages\<close> that the answer sets.
\<close>

theorem C6_page_range_kept_except_by_responses:
  "page_in_range mount
   \<and> (page_in_range s \<longrightarrow> page_in_range (elapse d s))
   \<and> (page_in_range s \<and> \<not> is_response e \<longrightarrow> page_in_range (step e s))
   \<and> (currentPage (step PrevPage s) \<noteq> currentPage s \<longrightarrow> 1 \<le> currentPage (step PrevPage s))
   \<and> (currentPage (step NextPage s) \<noteq> currentPage s \<longrightarrow>
        currentPage (step NextPage s) \<le> totalPages s)
   \<and> (currentPage (step (PageButton i) s) \<noteq> currentPage s \<longrightarrow>
        1 \<le> currentPage (step (PageButton i) s)
        \<and> currentPage (step (PageButton i) s) \<le> totalPages s)
   \<and> (is_pagination e \<longrightarrow>
        totalPages (step e s) = totalPages s
        \<and> (if currentPage (step e s) = currentPage s then requests (step e s) = requests s
            else \<exists>q. requests (step e s) = requests s @ [characters_url q (currentPage (step e s))]))
   \<and> (page_in_range s \<and> k < length (pending s) \<longrightarrow>
        page_in_range (step (ListResponse k res) s)
        = (currentPage s \<le> totalPages (fetchCharacters_finish res s)))"
proof (intro conjI impI)
  show "page_in_range mount" by (rule page_in_range_mount)
  show "page_in_range (elapse d s)" if "page_in_range s"
    using that by (rule page_in_range_elapse)
  show "page_in_range (step e s)" if "page_in_range s \<and> \<not> is_response e"
    using that by (simp add: page_in_range_user_event)
  show "1 \<le> currentPage (step PrevPage s)"
    if "currentPage (step PrevPage s) \<noteq> currentPage s"
    using that by (simp add: pagination_pages split: if_splits)
  show "currentPage (step NextPage s) \<le> totalPages s"
    if "currentPage (step NextPage s) \<noteq> currentPage s"
    using that by (simp add: pagination_pages split: if_splits)
  show "1 \<le> currentPage (step (PageButton i) s)"
    if "currentPage (step (PageButton i) s) \<noteq> currentPage s"
    using that by (simp add: pagination_pages split: if_splits)
  show "currentPage (step (PageButton i) s) \<le> totalPages s"
    if "currentPage (step (PageButton i) s) \<noteq> currentPage s"
    using that by (simp add: pagination_pages split: if_splits)
  show "totalPages (step e s) = totalPages s" if "is_pagination e"
    using that by (rule pagination_totalPages)
  show "if currentPage (step e s) = currentPage s then requests (step e s) = requests s
      else \<exists>q. requests (step e s) = requests s @ [characters_url q (currentPage (step e s))]"
    if "is_pagination e"
    using pagination_requests [OF that, of s] by auto
  show "page_in_range (step (ListResponse k res) s)
      = (currentPage s \<le> totalPages (fetchCharacters_finish res s))"
    if "page_in_range s \<and> k < length (pending s)"
    using that by (simp add: page_in_range_response)
qed

theorem C6_page_range_kept_except_by_responses_witness:
  "page_in_range (elapse 50 (run page_2_shown mount))
   \<and> page_in_range (step NextPage (run page_2_shown mount))
   \<and> 1 \<le> currentPage (step PrevPage (run page_2_shown mount))
   \<and> currentPage (step NextPage (run page_2_shown mount)) \<le> totalPages (run page_2_shown mount)
   \<and> currentPage (step (PageButton 4) (run page_2_shown mount)) \<le> totalPages (run page_2_shown mount)
   \<and> totalPages (step NextPage (run page_2_shown mount)) = totalPages (run page_2_shown mount)
   \<and> page_in_range (step (ListResponse 0 (ok 82)) mount)"
proof -
  let ?s = "run page_2_shown mount"
  have s: "currentPage ?s = 2" "totalPages ?s = 9" "pagination_shown ?s"
    by (simp_all add: page_2_shown_def run_defs)
  then have r: "page_in_range ?s"
    by (simp add: page_in_range_def)
  have c: "currentPage (step PrevPage ?s) \<noteq> currentPage ?s"
    "currentPage (step NextPage ?s) \<noteq> currentPage ?s"
    "currentPage (step (PageButton 4) ?s) \<noteq> currentPage ?s"
    using s by (simp_all add: pagination_pages)
  have e: "\<not> is_response NextPage" "is_pagination NextPage"
    by simp_all
  have m: "page_in_range mount" "0 < length (pending mount)"
    "currentPage mount \<le> totalPages (fetchCharacters_finish (ok 82) mount)"
    by (simp_all add: run_defs page_in_range_def)
  from r c e C6_page_range_kept_except_by_responses [of ?s 50 NextPage 4 0 "ok 82"]
  have "page_in_range (elapse 50 ?s)" "page_in_range (step NextPage ?s)"
    "1 \<le> currentPage (step PrevPage ?s)" "currentPage (step NextPage ?s) \<le> totalPages ?s"
    "currentPage (step (PageButton 4) ?s) \<le> totalPages ?s"
    "totalPages (step NextPage ?s) = totalPages ?s"
    by blast+
  moreover from m C6_page_range_kept_except_by_responses [of mount 50 NextPage 4 0 "ok 82"]
  have "page_in_range (step (ListResponse 0 (ok 82)) mount)"
    by blast
  ultimately show ?thesis by blast
qed

end
